theory Spec2Isabelle
  imports Main "HOL-Library.AList"
begin

section \<open>Values and objects of the program\<close>

text \<open>
  The program is \<^verbatim>\<open>src/index.js\<close>. Its objects (\<^verbatim>\<open>resources\<close>,
  \<^verbatim>\<open>reverse_location\<close>, \<^verbatim>\<open>resources_sha256s\<close>, \<^verbatim>\<open>nested_root_deps\<close> and every
  \<^verbatim>\<open>dependencies\<close> mapping of the input) are association lists holding the own properties
  in the order \<^verbatim>\<open>for (let n in obj)\<close> enumerates them: \<^verbatim>\<open>obj[k]\<close> is \<open>map_of obj k\<close>
  (\<open>None\<close> for \<^verbatim>\<open>undefined\<close>), \<^verbatim>\<open>obj[k] = v\<close> is \<open>AList.update k v obj\<close>, which replaces
  the value in place or appends a new key. This is the behaviour of a JavaScript object
  for keys that are neither array indices (enumerated first, in numeric order) nor names
  inherited from \<^verbatim>\<open>Object.prototype\<close>; package names, \<^verbatim>\<open>name@version\<close> identifiers and
  tree locations of an \<^verbatim>\<open>npm ls --json --long\<close> listing are such keys.
\<close>

text \<open>An optional string property is truthy when it is present and not empty.\<close>

definition truthy :: "string option \<Rightarrow> bool" where
  "truthy v = (case v of None \<Rightarrow> False | Some s \<Rightarrow> s \<noteq> [])"

text \<open>The lines written to \<^verbatim>\<open>log\<close> (standard error), one constructor per message.\<close>

datatype message =
  Unsupported_url string
| Bundled_dependencies "string option"
| Optional_dependencies "string option"
| Resolving_tree
| Normalizing_parents
| Finished

text \<open>
  What \<^verbatim>\<open>getHash\<close> returns: a promise already resolved to \<^verbatim>\<open>null\<close>, or the promise of
  a digest of the body of an \<^verbatim>\<open>https.get\<close> request that has been started.
\<close>

datatype promise = Resolved_null | Https_get string

datatype error =
  Error_resolving_root "string option"
| Error_resolving_nested_root "string option"
| Error_normalizing_nested_root "string option"
| Error_normalizing_nested string
| TypeError
| Transport_error string

section \<open>getHash\<close>

definition getHash :: "string option \<Rightarrow> message list \<Rightarrow> promise \<times> message list" where
  "getHash u lg =
     (case u of
        None \<Rightarrow> (Resolved_null, lg)
      | Some a \<Rightarrow>
          if take 8 a \<noteq> ''https://'' then (Resolved_null, lg @ [Unsupported_url a])
          else (Https_get a, lg))"

section \<open>getDepTreeBranch\<close>

text \<open>
  The regular expression \<^verbatim>\<open>/\/([^\/]+)/g\<close> is matched repeatedly: each match is a slash
  followed by the longest non-empty run of characters other than a slash, and the run is
  pushed; a character at which no match starts is skipped.
\<close>

function getDepTreeBranch :: "string \<Rightarrow> string list" where
  "getDepTreeBranch [] = []"
| "getDepTreeBranch (c # cs) =
     (if c = CHR ''/'' \<and> takeWhile (\<lambda>x. x \<noteq> CHR ''/'') cs \<noteq> []
      then takeWhile (\<lambda>x. x \<noteq> CHR ''/'') cs #
           getDepTreeBranch (dropWhile (\<lambda>x. x \<noteq> CHR ''/'') cs)
      else getDepTreeBranch cs)"
  by pat_completeness auto
termination
  by (relation "measure length") (auto simp: less_Suc_eq_le length_dropWhile_le)

section \<open>The dependency tree and the resolver's state\<close>

text \<open>
  One entry of a \<^verbatim>\<open>dependencies\<close> mapping. \<open>d_install\<close> is \<^verbatim>\<open>d.scripts.install\<close> (absent
  when \<^verbatim>\<open>d.scripts\<close> is); the two unsupported kinds are kept as the lists of their keys.
\<close>

datatype node = Node
  (d_id: "string option")
  (d_resolved: "string option")
  (d_location: string)
  (d_requiredBy: "string list")
  (d_install: "string option")
  (d_bin: "(string \<times> string) list option")
  (d_bundleDependencies: "string list")
  (d_optionalDependencies: "string list")
  (d_dependencies: "(string \<times> node) list")

text \<open>The \<^verbatim>\<open>info\<close> object of a resource; \<open>None\<close> is a property that was never set.\<close>

record info =
  url :: string
  install :: "string option"
  bin :: "(string \<times> string) list option"
  nested :: "bool option"
  name :: "string option"
  parent :: "string list option"

text \<open>
  \<^verbatim>\<open>native_addons.push(info)\<close> pushes the object itself, not a copy. An object that is
  then stored in \<^verbatim>\<open>resources\<close> stays under its key for the rest of the run, so the entry
  is the key (\<open>Stored\<close>); an object that is never stored is kept as it is (\<open>Detached\<close>).
\<close>

datatype addon = Stored string | Detached info

record state =
  resources :: "(string \<times> info) list"
  reverse_location :: "(string \<times> string) list"
  resources_sha256s :: "(string \<times> promise) list"
  nested_root_deps :: "(string \<times> node) list"
  native_addons :: "addon list"
  log :: "message list"

definition initial :: state where
  "initial = \<lparr>resources = [], reverse_location = [], resources_sha256s = [],
     nested_root_deps = [], native_addons = [], log = []\<rparr>"

section \<open>resolveDependencies\<close>

text \<open>
  \<^verbatim>\<open>String.prototype.replace\<close> with a string pattern replaces the first occurrence only
  (the two replacement texts of the program hold no \<^verbatim>\<open>$\<close> pattern).
\<close>

fun replace :: "string \<Rightarrow> string \<Rightarrow> string \<Rightarrow> string" where
  "replace pat rep [] = (if pat = [] then rep else [])"
| "replace pat rep (c # cs) =
     (if take (length pat) (c # cs) = pat then rep @ drop (length pat) (c # cs)
      else c # replace pat rep cs)"

definition build_from_source :: "string \<Rightarrow> string" where
  "build_from_source script =
     replace ''prebuild'' ''prebuild --compile''
       (replace ''node-pre-gyp'' ''node-pre-gyp --build-from-source'' script)"

text \<open>The two warnings at the head of the loop body.\<close>

definition warnings :: "node \<Rightarrow> message list" where
  "warnings d =
     (if d_bundleDependencies d \<noteq> [] then [Bundled_dependencies (d_id d)] else []) @
     (if d_optionalDependencies d \<noteq> [] then [Optional_dependencies (d_id d)] else [])"

text \<open>
  The loop body from \<^verbatim>\<open>let branch = ...\<close> to the end of the root-level or nested branch,
  for a node whose \<^verbatim>\<open>_id\<close> and \<^verbatim>\<open>_resolved\<close> are truthy. \<open>native\<close> is the global of that
  name. In the merge case \<^verbatim>\<open>resources[d._id].parent\<close> of a record that has no \<^verbatim>\<open>parent\<close>
  is \<^verbatim>\<open>undefined\<close>, and calling \<^verbatim>\<open>concat\<close> on it throws a TypeError.
\<close>

definition resolve_node :: "bool \<Rightarrow> string \<Rightarrow> node \<Rightarrow> state \<Rightarrow> error + state" where
  "resolve_node native n d s =
     (let branch = getDepTreeBranch (d_location d);
          info0 = \<lparr>url = the (d_resolved d), install = None, bin = None, nested = None,
                    name = None, parent = None\<rparr>;
          script = truthy (d_install d);
          info1 = (if script
                   then info0\<lparr>install := Some (build_from_source (the (d_install d)))\<rparr>
                   else info0)
      in if length branch = 1 then
           (let info2 = (if native \<and> d_bin d \<noteq> None then info1\<lparr>bin := d_bin d\<rparr> else info1)
            in if map_of (resources s) n \<noteq> None then Inl (Error_resolving_root (d_id d))
               else
                 (let info3 = info2\<lparr>nested := Some False, name := Some n\<rparr>;
                      (p, lg) = getHash (Some (url info3)) (log s)
                  in Inr (s\<lparr>resources := AList.update n info3 (resources s),
                            resources_sha256s := AList.update n p (resources_sha256s s),
                            reverse_location :=
                              AList.update (d_location d) n (reverse_location s),
                            native_addons :=
                              native_addons s @ (if script then [Stored n] else []),
                            log := lg\<rparr>)))
         else
           (let i = the (d_id d)
            in case map_of (resources s) i of
                 Some r \<Rightarrow>
                   (case parent r of
                      None \<Rightarrow> Inl TypeError
                    | Some ps \<Rightarrow>
                        Inr (s\<lparr>resources :=
                                 AList.update i (r\<lparr>parent := Some (ps @ d_requiredBy d)\<rparr>)
                                   (resources s),
                               reverse_location :=
                                 AList.update (d_location d) i (reverse_location s),
                               native_addons :=
                                 native_addons s @
                                 (if script then [Detached info1] else [])\<rparr>))
               | None \<Rightarrow>
                   (let info3 = info1\<lparr>nested := Some True,
                                       parent := Some (d_requiredBy d), name := Some i\<rparr>;
                        (p, lg) = getHash (Some (url info3)) (log s)
                    in Inr (s\<lparr>resources := AList.update i info3 (resources s),
                              resources_sha256s := AList.update i p (resources_sha256s s),
                              reverse_location :=
                                AList.update (d_location d) i (reverse_location s),
                              native_addons :=
                                native_addons s @ (if script then [Stored i] else []),
                              log := lg\<rparr>))))"

function resolveDependencies :: "bool \<Rightarrow> (string \<times> node) list \<Rightarrow> state \<Rightarrow> error + state"
  where
  "resolveDependencies native [] s = Inr s"
| "resolveDependencies native ((n, d) # deps) s =
     (let s1 = s\<lparr>log := log s @ warnings d\<rparr>
      in if \<not> truthy (d_id d) then resolveDependencies native deps s1
         else if \<not> truthy (d_resolved d) then
           resolveDependencies native deps
             (s1\<lparr>nested_root_deps := AList.update n d (nested_root_deps s1)\<rparr>)
         else
           (case resolve_node native n d s1 of
              Inl e \<Rightarrow> Inl e
            | Inr s2 \<Rightarrow>
                (case resolveDependencies native (d_dependencies d) s2 of
                   Inl e \<Rightarrow> Inl e
                 | Inr s3 \<Rightarrow> resolveDependencies native deps s3)))"
  by pat_completeness auto
termination
proof (relation "measure (\<lambda>(native, deps, s). size_list (size_prod (\<lambda>_. 0) size) deps)")
  fix native :: bool and n :: string and d :: node and deps :: "(string \<times> node) list"
    and s s1 s2 :: state
  show "((native, d_dependencies d, s2), (native, (n, d) # deps, s))
    \<in> measure (\<lambda>(native, deps, s). size_list (size_prod (\<lambda>_. 0) size) deps)"
    by (cases d) simp
qed simp_all

section \<open>normalizeDepParents\<close>

text \<open>
  The inner loop of both passes: every location is looked up in \<^verbatim>\<open>reverse_location\<close>, a
  missing entry throws (\<open>None\<close>), and an identifier that \<^verbatim>\<open>indexOf\<close> does not find among
  the parents so far is pushed.
\<close>

fun resolve_parents :: "(string \<times> string) list \<Rightarrow> string list \<Rightarrow> string list \<Rightarrow> string list option"
  where
  "resolve_parents rl [] ps = Some ps"
| "resolve_parents rl (l # ls) ps =
     (case map_of rl l of
        None \<Rightarrow> None
      | Some rev_p \<Rightarrow> resolve_parents rl ls (if rev_p \<in> set ps then ps else ps @ [rev_p]))"

text \<open>One iteration of the first loop, for the entry \<open>(n, d)\<close> of \<^verbatim>\<open>nested_root_deps\<close>.\<close>

definition normalize_nested_root :: "string \<Rightarrow> node \<Rightarrow> state \<Rightarrow> error + state" where
  "normalize_nested_root n d s =
     (case map_of (resources s) n of
        None \<Rightarrow> Inl (Error_resolving_nested_root (d_id d))
      | Some r \<Rightarrow>
          (let rl = AList.update (d_location d) n (reverse_location s);
               ps = (case parent r of None \<Rightarrow> [] | Some ps \<Rightarrow> ps)
           in case resolve_parents rl (d_requiredBy d) ps of
                None \<Rightarrow> Inl (Error_normalizing_nested_root (d_id d))
              | Some ps' \<Rightarrow>
                  Inr (s\<lparr>reverse_location := rl,
                         resources := AList.update n (r\<lparr>parent := Some ps'\<rparr>) (resources s)\<rparr>)))"

fun normalize_nested_roots :: "(string \<times> node) list \<Rightarrow> state \<Rightarrow> error + state" where
  "normalize_nested_roots [] s = Inr s"
| "normalize_nested_roots ((n, d) # ds) s =
     (case normalize_nested_root n d s of
        Inl e \<Rightarrow> Inl e
      | Inr s' \<Rightarrow> normalize_nested_roots ds s')"

text \<open>
  One iteration of the second loop, for the entry \<open>(n, r)\<close> of \<^verbatim>\<open>resources\<close>. Reading
  \<^verbatim>\<open>p.length\<close> of a nested record without \<^verbatim>\<open>parent\<close> would throw a TypeError.
\<close>

definition normalize_nested :: "(string \<times> string) list \<Rightarrow> string \<Rightarrow> info \<Rightarrow> error + info" where
  "normalize_nested rl n r =
     (if nested r = Some True then
        (case parent r of
           None \<Rightarrow> Inl TypeError
         | Some p \<Rightarrow>
             if p = [] then Inl (Error_normalizing_nested n)
             else (case resolve_parents rl p [] of
                     None \<Rightarrow> Inl (Error_normalizing_nested n)
                   | Some ps \<Rightarrow> Inr (r\<lparr>parent := Some ps\<rparr>)))
      else Inr r)"

fun normalize_resources :: "(string \<times> string) list \<Rightarrow> (string \<times> info) list \<Rightarrow> error + (string \<times> info) list"
  where
  "normalize_resources rl [] = Inr []"
| "normalize_resources rl ((n, r) # rs) =
     (case normalize_nested rl n r of
        Inl e \<Rightarrow> Inl e
      | Inr r' \<Rightarrow>
          (case normalize_resources rl rs of
             Inl e \<Rightarrow> Inl e
           | Inr rs' \<Rightarrow> Inr ((n, r') # rs')))"

definition normalizeDepParents :: "state \<Rightarrow> error + state" where
  "normalizeDepParents s =
     (case normalize_nested_roots (nested_root_deps s) s of
        Inl e \<Rightarrow> Inl e
      | Inr s1 \<Rightarrow>
          (case normalize_resources (reverse_location s1) (resources s1) of
             Inl e \<Rightarrow> Inl e
           | Inr rs \<Rightarrow> Inr (s1\<lparr>resources := rs\<rparr>)))"

section \<open>The promise chain that writes the formula\<close>


record run =
  modulename :: string
  class_name :: string
  out_file :: bool
  native_json :: bool
  fetch :: "string \<Rightarrow> error + string option"
  path_normalize :: "string \<Rightarrow> string"


















text \<open>The object a \<^verbatim>\<open>native_addons\<close> entry stands for.\<close>

definition addon_info :: "(string \<times> info) list \<Rightarrow> addon \<Rightarrow> info option" where
  "addon_info rs a = (case a of Stored k \<Rightarrow> map_of rs k | Detached i \<Rightarrow> Some i)"





section \<open>The walk, for stating what the resolver does\<close>

text \<open>
  The entries for which the loop body runs when nothing throws, in that order: an entry,
  then (unless the body left it with \<^verbatim>\<open>continue\<close>) the entries of its \<^verbatim>\<open>dependencies\<close>,
  then the rest of the mapping.
\<close>

function walk :: "(string \<times> node) list \<Rightarrow> (string \<times> node) list" where
  "walk [] = []"
| "walk ((n, d) # deps) =
     (n, d) #
     (if truthy (d_id d) \<and> truthy (d_resolved d) then walk (d_dependencies d) else []) @
     walk deps"
  by pat_completeness auto
termination
proof (relation "measure (size_list (size_prod (\<lambda>_. 0) size))")
  fix n :: string and d :: node and deps :: "(string \<times> node) list"
  show "(d_dependencies d, (n, d) # deps) \<in> measure (size_list (size_prod (\<lambda>_. 0) size))"
    by (cases d) simp
qed simp_all

text \<open>The loop body without its recursive call, and the loop over a list of entries.\<close>

definition loop_body :: "bool \<Rightarrow> string \<Rightarrow> node \<Rightarrow> state \<Rightarrow> error + state" where
  "loop_body native n d s =
     (let s1 = s\<lparr>log := log s @ warnings d\<rparr>
      in if \<not> truthy (d_id d) then Inr s1
         else if \<not> truthy (d_resolved d) then
           Inr (s1\<lparr>nested_root_deps := AList.update n d (nested_root_deps s1)\<rparr>)
         else resolve_node native n d s1)"

fun iterate :: "bool \<Rightarrow> (string \<times> node) list \<Rightarrow> state \<Rightarrow> error + state" where
  "iterate native [] s = Inr s"
| "iterate native ((n, d) # es) s =
     (case loop_body native n d s of
        Inl e \<Rightarrow> Inl e
      | Inr s' \<Rightarrow> iterate native es s')"

text \<open>The entries that reach the classification: \<^verbatim>\<open>_id\<close> and \<^verbatim>\<open>_resolved\<close> are truthy.\<close>

definition classified :: "(string \<times> node) list \<Rightarrow> (string \<times> node) list" where
  "classified es = filter (\<lambda>(n, d). truthy (d_id d) \<and> truthy (d_resolved d)) es"

definition root_level :: "node \<Rightarrow> bool" where
  "root_level d = (length (getDepTreeBranch (d_location d)) = 1)"

text \<open>The key under which a classified entry is stored: its name or its \<^verbatim>\<open>_id\<close>.\<close>

definition resource_key :: "string \<Rightarrow> node \<Rightarrow> string" where
  "resource_key n d = (if root_level d then n else the (d_id d))"

text \<open>
  Of a list of entries: the names under which the root-level ones are stored, and the
  nested ones whose \<^verbatim>\<open>_id\<close> is \<open>i\<close>, both in the order of the list.
\<close>

definition root_names :: "(string \<times> node) list \<Rightarrow> string list" where
  "root_names es = map fst (filter (\<lambda>(n, d). root_level d) (classified es))"

definition encounters :: "string \<Rightarrow> (string \<times> node) list \<Rightarrow> node list" where
  "encounters i es =
     map snd (filter (\<lambda>(n, d). \<not> root_level d \<and> d_id d = Some i) (classified es))"

text \<open>The pending parents of the record under a key (none when there is no record).\<close>

definition pending :: "(string \<times> info) list \<Rightarrow> string \<Rightarrow> string list" where
  "pending rs k =
     (case map_of rs k of
        None \<Rightarrow> []
      | Some r \<Rightarrow> (case parent r of None \<Rightarrow> [] | Some ps \<Rightarrow> ps))"



text \<open>A list without its repetitions, every element at the place where it is seen first.\<close>

function first_seen :: "string list \<Rightarrow> string list" where
  "first_seen [] = []"
| "first_seen (x # xs) = x # first_seen (removeAll x xs)"
  by pat_completeness auto
termination
  by (relation "measure length") (auto simp: less_Suc_eq_le)



section \<open>Example trees\<close>

text \<open>A node of the listing that is resolved at the registry and has nothing optional.\<close>

definition pkg :: "string \<Rightarrow> string \<Rightarrow> string list \<Rightarrow> (string \<times> node) list \<Rightarrow> node" where
  "pkg i l rb deps =
     Node (Some i) (Some (''https://registry.npmjs.org/'' @ i)) l rb None None [] [] deps"

text \<open>\<open>A\<close> and \<open>C\<close> at the root level, each with its own nested copy of \<open>B@1.0.0\<close>.\<close>

definition two_requirers :: "(string \<times> node) list" where
  "two_requirers =
     [(''A'', pkg ''A@1.0.0'' ''/A'' [''/'']
         [(''B'', pkg ''B@1.0.0'' ''/A/node_modules/B'' [''/A''] [])]),
      (''C'', pkg ''C@1.0.0'' ''/C'' [''/'']
         [(''B'', pkg ''B@1.0.0'' ''/C/node_modules/B'' [''/C''] [])])]"

text \<open>The same tree, where \<open>B@1.0.0\<close> declares an install script.\<close>

definition addon :: "string \<Rightarrow> node" where
  "addon l =
     Node (Some ''B@1.0.0'') (Some ''https://registry.npmjs.org/B@1.0.0'') l
       [take 2 l] (Some ''node-pre-gyp install'') None [] [] []"

definition two_addons :: "(string \<times> node) list" where
  "two_addons =
     [(''A'', pkg ''A@1.0.0'' ''/A'' [''/''] [(''B'', addon ''/A/node_modules/B'')]),
      (''C'', pkg ''C@1.0.0'' ''/C'' [''/''] [(''B'', addon ''/C/node_modules/B'')])]"




text \<open>\<open>B\<close> at the root level and another version of \<open>B\<close> nested under \<open>A\<close>.\<close>

definition root_and_nested :: "(string \<times> node) list" where
  "root_and_nested =
     [(''A'', pkg ''A@1.0.0'' ''/A'' [''/'']
         [(''B'', pkg ''B@1.0.0'' ''/A/node_modules/B'' [''/A''] [])]),
      (''B'', pkg ''B@2.0.0'' ''/B'' [''/''] [])]"



section \<open>The loop as an iteration over the walk\<close>

lemma iterate_append:
  "iterate native (xs @ ys) s =
     (case iterate native xs s of Inl e \<Rightarrow> Inl e | Inr s' \<Rightarrow> iterate native ys s')"
  by (induction xs arbitrary: s) (auto split: sum.splits)

lemma resolveDependencies_iterate:
  "resolveDependencies native deps s = iterate native (walk deps) s"
proof (induction native deps s rule: resolveDependencies.induct)
  case (1 native s)
  show ?case by simp
next
  case (2 native n d deps s)
  show ?case
    using "2.IH"
    by (auto simp: loop_body_def iterate_append Let_def split: sum.splits)
qed

lemma loop_body_cases [consumes 1, case_names skipped deferred root merged created]:
  assumes "loop_body native n d s = Inr s'"
  obtains
    "\<not> truthy (d_id d)" "resources s' = resources s"
      "reverse_location s' = reverse_location s"
      "nested_root_deps s' = nested_root_deps s"
  | "truthy (d_id d)" "\<not> truthy (d_resolved d)" "resources s' = resources s"
      "reverse_location s' = reverse_location s"
      "nested_root_deps s' = AList.update n d (nested_root_deps s)"
  | r where "truthy (d_id d)" "truthy (d_resolved d)" "root_level d"
      "map_of (resources s) n = None"
      "nested r = Some False" "name r = Some n" "parent r = None"
      "resources s' = AList.update n r (resources s)"
      "reverse_location s' = AList.update (d_location d) n (reverse_location s)"
      "nested_root_deps s' = nested_root_deps s"
      "url r = the (d_resolved d)"
  | i r ps where "truthy (d_id d)" "truthy (d_resolved d)" "\<not> root_level d"
      "d_id d = Some i" "map_of (resources s) i = Some r" "parent r = Some ps"
      "resources s' = AList.update i (r\<lparr>parent := Some (ps @ d_requiredBy d)\<rparr>) (resources s)"
      "reverse_location s' = AList.update (d_location d) i (reverse_location s)"
      "nested_root_deps s' = nested_root_deps s"
  | i r where "truthy (d_id d)" "truthy (d_resolved d)" "\<not> root_level d"
      "d_id d = Some i" "map_of (resources s) i = None"
      "nested r = Some True" "name r = Some i" "parent r = Some (d_requiredBy d)"
      "resources s' = AList.update i r (resources s)"
      "reverse_location s' = AList.update (d_location d) i (reverse_location s)"
      "nested_root_deps s' = nested_root_deps s"
      "url r = the (d_resolved d)"
proof (cases "truthy (d_id d)")
  case False
  with assms that(1) show ?thesis by (auto simp: loop_body_def Let_def)
next
  case tid: True
  show ?thesis
  proof (cases "truthy (d_resolved d)")
    case False
    with tid assms that(2) show ?thesis by (auto simp: loop_body_def Let_def)
  next
    case res: True
    from tid obtain i where i: "d_id d = Some i" by (auto simp: truthy_def split: option.splits)
    from tid res assms have rn: "resolve_node native n d (s\<lparr>log := log s @ warnings d\<rparr>) = Inr s'"
      by (simp add: loop_body_def Let_def)
    show ?thesis
    proof (cases "root_level d")
      case True
      define r where "r = the (map_of (resources s') n)"
      from rn tid res True have "map_of (resources s) n = None \<and>
          nested r = Some False \<and> name r = Some n \<and> parent r = None \<and>
          resources s' = AList.update n r (resources s) \<and>
          reverse_location s' = AList.update (d_location d) n (reverse_location s) \<and>
          nested_root_deps s' = nested_root_deps s \<and> url r = the (d_resolved d)"
        unfolding r_def
        by (auto simp: resolve_node_def root_level_def Let_def AList.update_conv'
            split: if_splits prod.splits)
      with that(3) tid res True show ?thesis by blast
    next
      case nr: False
      show ?thesis
      proof (cases "map_of (resources s) i")
        case None
        define r where "r = the (map_of (resources s') i)"
        from rn tid res nr i None have
          "nested r = Some True \<and> name r = Some i \<and> parent r = Some (d_requiredBy d) \<and>
           resources s' = AList.update i r (resources s) \<and>
           reverse_location s' = AList.update (d_location d) i (reverse_location s) \<and>
           nested_root_deps s' = nested_root_deps s \<and> url r = the (d_resolved d)"
          unfolding r_def
          by (auto simp: resolve_node_def root_level_def Let_def AList.update_conv'
              split: if_splits prod.splits)
        with that(5) tid res nr i None show ?thesis by blast
      next
        case (Some r)
        from rn tid res nr i Some have
          "\<exists>ps. parent r = Some ps \<and>
           resources s' =
             AList.update i (r\<lparr>parent := Some (ps @ d_requiredBy d)\<rparr>) (resources s) \<and>
           reverse_location s' = AList.update (d_location d) i (reverse_location s) \<and>
           nested_root_deps s' = nested_root_deps s"
          by (auto simp: resolve_node_def root_level_def Let_def
              split: if_splits prod.splits option.splits)
        with that(4) tid res nr i Some show ?thesis by blast
      qed
    qed
  qed
qed


lemma root_names_simps:
  "root_names [] = []"
  "root_names ((n, d) # es) =
     (if truthy (d_id d) \<and> truthy (d_resolved d) \<and> root_level d then [n] else []) @
     root_names es"
  by (simp_all add: root_names_def classified_def)

lemma encounters_simps:
  "encounters i [] = []"
  "encounters i ((n, d) # es) =
     (if truthy (d_id d) \<and> truthy (d_resolved d) \<and> \<not> root_level d \<and> d_id d = Some i
      then [d] else []) @ encounters i es"
  by (auto simp: encounters_def classified_def)

lemma set_update_cases:
  "(k', v') \<in> set (AList.update k v al) \<Longrightarrow> (k' = k \<and> v' = v) \<or> (k', v') \<in> set al"
  by (induction al) (auto split: if_splits)

lemma iterate_Cons_Inr:
  "iterate native ((n, d) # es) s = Inr s' \<Longrightarrow>
     \<exists>s1. loop_body native n d s = Inr s1 \<and> iterate native es s1 = Inr s'"
  by (auto split: sum.splits)

lemma loop_body_keys:
  assumes "loop_body native n d s = Inr s'"
  shows "set (map fst (resources s')) =
     set (map fst (resources s)) \<union> set (root_names [(n, d)]) \<union>
     {i. encounters i [(n, d)] \<noteq> []}"
  using assms
proof (cases rule: loop_body_cases)
  case skipped
  then show ?thesis by (auto simp: root_names_simps encounters_simps)
next
  case deferred
  then show ?thesis by (auto simp: root_names_simps encounters_simps)
next
  case (root r)
  then show ?thesis by (auto simp: root_names_simps encounters_simps AList.update_keys)
next
  case (merged i r ps)
  from merged(5) have "i \<in> fst ` set (resources s)"
    by (metis map_of_eq_None_iff option.distinct(1))
  with merged show ?thesis
    by (auto simp: root_names_simps encounters_simps AList.update_keys)
next
  case (created i r)
  then show ?thesis by (auto simp: root_names_simps encounters_simps AList.update_keys)
qed

lemma iterate_keys:
  "iterate native es s = Inr s' \<Longrightarrow>
     set (map fst (resources s')) =
     set (map fst (resources s)) \<union> set (root_names es) \<union> {i. encounters i es \<noteq> []}"
proof (induction es arbitrary: s)
  case Nil
  then show ?case by (simp add: root_names_simps encounters_simps)
next
  case (Cons e es)
  obtain n d where e: "e = (n, d)" by (cases e)
  from Cons.prems e obtain s1 where
    s1: "loop_body native n d s = Inr s1" "iterate native es s1 = Inr s'"
    using iterate_Cons_Inr by blast
  from Cons.IH [OF s1(2)] loop_body_keys [OF s1(1)] e show ?case
    by (auto simp: root_names_simps encounters_simps split: if_splits)
qed

lemma loop_body_distinct:
  assumes "loop_body native n d s = Inr s'" "distinct (map fst (resources s))"
  shows "distinct (map fst (resources s'))"
  using assms by (cases rule: loop_body_cases) (auto simp: AList.distinct_update)

lemma iterate_distinct:
  "iterate native es s = Inr s' \<Longrightarrow> distinct (map fst (resources s)) \<Longrightarrow>
     distinct (map fst (resources s'))"
proof (induction es arbitrary: s)
  case Nil
  then show ?case by simp
next
  case (Cons e es)
  obtain n d where e: "e = (n, d)" by (cases e)
  from Cons.prems e obtain s1 where
    s1: "loop_body native n d s = Inr s1" "iterate native es s1 = Inr s'"
    using iterate_Cons_Inr by blast
  from Cons.IH [OF s1(2)] loop_body_distinct [OF s1(1)] Cons.prems(2) show ?case by simp
qed

lemma iterate_root_names:
  "iterate native es s = Inr s' \<Longrightarrow>
     distinct (root_names es) \<and> set (root_names es) \<inter> set (map fst (resources s)) = {}"
proof (induction es arbitrary: s)
  case Nil
  then show ?case by (simp add: root_names_simps)
next
  case (Cons e es)
  obtain n d where e: "e = (n, d)" by (cases e)
  from Cons.prems e obtain s1 where
    s1: "loop_body native n d s = Inr s1" "iterate native es s1 = Inr s'"
    using iterate_Cons_Inr by blast
  note ih = Cons.IH [OF s1(2)] and keys = loop_body_keys [OF s1(1)]
  from s1(1) show ?case
  proof (cases rule: loop_body_cases)
    case skipped
    with ih keys e show ?thesis by (auto simp: root_names_simps encounters_simps)
  next
    case deferred
    with ih keys e show ?thesis by (auto simp: root_names_simps encounters_simps)
  next
    case (root r)
    from root(4) have "n \<notin> set (map fst (resources s))"
      by (simp add: map_of_eq_None_iff)
    with ih keys root e show ?thesis
      by (auto simp: root_names_simps encounters_simps)
  next
    case (merged i r ps)
    with ih keys e show ?thesis by (auto simp: root_names_simps encounters_simps)
  next
    case (created i r)
    with ih keys e show ?thesis by (auto simp: root_names_simps encounters_simps)
  qed
qed

lemma pending_update:
  "pending (AList.update i r rs) k =
     (if k = i then (case parent r of None \<Rightarrow> [] | Some ps \<Rightarrow> ps) else pending rs k)"
  by (simp add: pending_def AList.update_conv')

lemma loop_body_pending:
  assumes "loop_body native n d s = Inr s'"
  shows "pending (resources s') k =
     pending (resources s) k @ concat (map d_requiredBy (encounters k [(n, d)]))"
  using assms
proof (cases rule: loop_body_cases)
  case skipped
  then show ?thesis by (auto simp: encounters_simps)
next
  case deferred
  then show ?thesis by (auto simp: encounters_simps)
next
  case (root r)
  then show ?thesis by (auto simp: encounters_simps pending_update) (simp add: pending_def)
next
  case (merged i r ps)
  then show ?thesis by (auto simp: encounters_simps pending_update) (simp add: pending_def)
next
  case (created i r)
  then show ?thesis by (auto simp: encounters_simps pending_update) (simp add: pending_def)
qed

lemma iterate_pending:
  "iterate native es s = Inr s' \<Longrightarrow>
     pending (resources s') k =
     pending (resources s) k @ concat (map d_requiredBy (encounters k es))"
proof (induction es arbitrary: s)
  case Nil
  then show ?case by (simp add: encounters_simps)
next
  case (Cons e es)
  obtain n d where e: "e = (n, d)" by (cases e)
  from Cons.prems e obtain s1 where
    s1: "loop_body native n d s = Inr s1" "iterate native es s1 = Inr s'"
    using iterate_Cons_Inr by blast
  from Cons.IH [OF s1(2)] loop_body_pending [OF s1(1)] e show ?case
    by (simp add: encounters_simps)
qed

text \<open>A record without \<open>parent\<close> is never merged into, and stays as it is.\<close>

lemma iterate_no_parent:
  "iterate native es s = Inr s' \<Longrightarrow> map_of (resources s) k = Some r \<Longrightarrow> parent r = None \<Longrightarrow>
     encounters k es = [] \<and> map_of (resources s') k = Some r"
proof (induction es arbitrary: s)
  case Nil
  then show ?case by (simp add: encounters_simps)
next
  case (Cons e es)
  obtain n d where e: "e = (n, d)" by (cases e)
  from Cons.prems e obtain s1 where
    s1: "loop_body native n d s = Inr s1" "iterate native es s1 = Inr s'"
    using iterate_Cons_Inr by blast
  from s1(1) have "map_of (resources s1) k = Some r \<and> encounters k [(n, d)] = []"
  proof (cases rule: loop_body_cases)
    case skipped
    with Cons.prems show ?thesis by (auto simp: encounters_simps)
  next
    case deferred
    with Cons.prems show ?thesis by (auto simp: encounters_simps)
  next
    case (root r')
    with Cons.prems show ?thesis by (auto simp: encounters_simps AList.update_conv')
  next
    case (merged i r' ps)
    with Cons.prems show ?thesis by (auto simp: encounters_simps AList.update_conv')
  next
    case (created i r')
    with Cons.prems show ?thesis by (auto simp: encounters_simps AList.update_conv')
  qed
  with Cons.IH [OF s1(2) _ Cons.prems(3)] e show ?case
    by (simp add: encounters_simps)
qed

text \<open>No name is both a root-level key and the identifier of a nested record.\<close>

lemma iterate_namespaces:
  "iterate native es s = Inr s' \<Longrightarrow> k \<in> set (root_names es) \<Longrightarrow> encounters k es = []"
proof (induction es arbitrary: s)
  case Nil
  then show ?case by (simp add: encounters_simps)
next
  case (Cons e es)
  obtain n d where e: "e = (n, d)" by (cases e)
  from Cons.prems e obtain s1 where
    s1: "loop_body native n d s = Inr s1" "iterate native es s1 = Inr s'"
    using iterate_Cons_Inr by blast
  note ih = Cons.IH [OF s1(2)] and fresh = iterate_root_names [OF s1(2)]
  from s1(1) show ?case
  proof (cases rule: loop_body_cases)
    case skipped
    with ih Cons.prems(2) e show ?thesis by (auto simp: root_names_simps encounters_simps)
  next
    case deferred
    with ih Cons.prems(2) e show ?thesis by (auto simp: root_names_simps encounters_simps)
  next
    case (root r)
    from root have "map_of (resources s1) n = Some r" by (simp add: AList.update_conv')
    from iterate_no_parent [OF s1(2) this root(7)] have "encounters n es = []" by simp
    with ih Cons.prems(2) e root show ?thesis
      by (auto simp: root_names_simps encounters_simps)
  next
    case (merged i r ps)
    then have "i \<in> set (map fst (resources s1))" by (simp add: AList.update_keys)
    with fresh have "i \<notin> set (root_names es)" by auto
    with ih Cons.prems(2) e merged show ?thesis
      by (auto simp: root_names_simps encounters_simps)
  next
    case (created i r)
    then have "i \<in> set (map fst (resources s1))" by (simp add: AList.update_keys)
    with fresh have "i \<notin> set (root_names es)" by auto
    with ih Cons.prems(2) e created show ?thesis
      by (auto simp: root_names_simps encounters_simps)
  qed
qed

lemma loop_body_records:
  assumes "loop_body native n d s = Inr s'" "(k, r') \<in> set (resources s')"
  shows "(\<exists>r. (k, r) \<in> set (resources s) \<and> nested r' = nested r \<and> name r' = name r \<and>
            (parent r' = None \<longleftrightarrow> parent r = None)) \<or>
         (name r' = Some k \<and>
           (nested r' = Some False \<and> parent r' = None \<and> k \<in> set (root_names [(n, d)]) \<or>
            nested r' = Some True \<and> parent r' \<noteq> None \<and> encounters k [(n, d)] \<noteq> []))"
  using assms(1)
proof (cases rule: loop_body_cases)
  case skipped
  with assms(2) show ?thesis by auto
next
  case deferred
  with assms(2) show ?thesis by auto
next
  case (root r)
  with assms(2) have "(k = n \<and> r' = r) \<or> (k, r') \<in> set (resources s)"
    by (auto dest: set_update_cases)
  with root show ?thesis by (auto simp: root_names_simps)
next
  case (merged i r ps)
  with assms(2) have "(k = i \<and> r' = r\<lparr>parent := Some (ps @ d_requiredBy d)\<rparr>) \<or>
      (k, r') \<in> set (resources s)"
    by (auto dest: set_update_cases)
  moreover from merged have "(i, r) \<in> set (resources s)" by (simp add: map_of_SomeD)
  ultimately show ?thesis using merged by auto
next
  case (created i r)
  with assms(2) have "(k = i \<and> r' = r) \<or> (k, r') \<in> set (resources s)"
    by (auto dest: set_update_cases)
  with created show ?thesis by (auto simp: encounters_simps)
qed

lemma root_names_mono: "k \<in> set (root_names es) \<Longrightarrow> k \<in> set (root_names (e # es))"
  by (cases e) (simp add: root_names_simps)

lemma encounters_mono: "encounters k es \<noteq> [] \<Longrightarrow> encounters k (e # es) \<noteq> []"
  by (cases e) (simp add: encounters_simps)

lemma iterate_records:
  "iterate native es s = Inr s' \<Longrightarrow> (k, r') \<in> set (resources s') \<Longrightarrow>
     (\<exists>r. (k, r) \<in> set (resources s) \<and> nested r' = nested r \<and> name r' = name r \<and>
            (parent r' = None \<longleftrightarrow> parent r = None)) \<or>
     (name r' = Some k \<and>
       (nested r' = Some False \<and> parent r' = None \<and> k \<in> set (root_names es) \<or>
        nested r' = Some True \<and> parent r' \<noteq> None \<and> encounters k es \<noteq> []))"
proof (induction es arbitrary: s)
  case Nil
  then show ?case by auto
next
  case (Cons e es)
  obtain n d where e: "e = (n, d)" by (cases e)
  from Cons.prems e obtain s1 where
    s1: "loop_body native n d s = Inr s1" "iterate native es s1 = Inr s'"
    using iterate_Cons_Inr by blast
  from Cons.IH [OF s1(2) Cons.prems(2)] show ?case
  proof
    assume "\<exists>r. (k, r) \<in> set (resources s1) \<and> nested r' = nested r \<and> name r' = name r \<and>
            (parent r' = None \<longleftrightarrow> parent r = None)"
    then obtain r1 where r1: "(k, r1) \<in> set (resources s1)" "nested r' = nested r1"
      "name r' = name r1" "parent r' = None \<longleftrightarrow> parent r1 = None" by auto
    from loop_body_records [OF s1(1) r1(1)] r1(2-4) e show ?thesis
      by (auto simp: root_names_simps encounters_simps)
  next
    assume "name r' = Some k \<and>
       (nested r' = Some False \<and> parent r' = None \<and> k \<in> set (root_names es) \<or>
        nested r' = Some True \<and> parent r' \<noteq> None \<and> encounters k es \<noteq> [])"
    then show ?thesis using root_names_mono [of k es e] encounters_mono [of k es e] by blast
  qed
qed




section \<open>Looking up the parents\<close>

lemma first_seen_set [simp]: "set (first_seen xs) = set xs"
  by (induction xs rule: first_seen.induct) auto

lemma first_seen_distinct [simp]: "distinct (first_seen xs)"
  by (induction xs rule: first_seen.induct) auto

lemma first_seen_Nil [simp]: "first_seen xs = [] \<longleftrightarrow> xs = []"
  by (cases xs) simp_all

lemma resolve_parents_None:
  "resolve_parents rl ls ps = None \<longleftrightarrow> (\<exists>l\<in>set ls. map_of rl l = None)"
  by (induction ls arbitrary: ps) (auto split: option.splits)

lemma resolve_parents_Some:
  "\<forall>l\<in>set ls. map_of rl l \<noteq> None \<Longrightarrow>
     resolve_parents rl ls ps =
       Some (ps @ first_seen (filter (\<lambda>x. x \<notin> set ps) (map (\<lambda>l. the (map_of rl l)) ls)))"
proof (induction ls arbitrary: ps)
  case Nil
  then show ?case by simp
next
  case (Cons l ls)
  from Cons.prems obtain v where v: "map_of rl l = Some v" by auto
  from Cons.prems have rest: "\<forall>l\<in>set ls. map_of rl l \<noteq> None" by simp
  show ?case
  proof (cases "v \<in> set ps")
    case True
    with v Cons.IH [OF rest, of ps] show ?thesis by simp
  next
    case False
    have "removeAll v (filter (\<lambda>x. x \<notin> set ps) (map (\<lambda>l. the (map_of rl l)) ls)) =
        filter (\<lambda>x. x \<notin> set (ps @ [v])) (map (\<lambda>l. the (map_of rl l)) ls)"
      by (auto simp: removeAll_filter_not_eq intro: filter_cong)
    with False v Cons.IH [OF rest, of "ps @ [v]"] show ?thesis by simp
  qed
qed

lemma resolve_parents_first_seen:
  "\<forall>l\<in>set ls. map_of rl l \<noteq> None \<Longrightarrow>
     resolve_parents rl ls [] = Some (first_seen (map (\<lambda>l. the (map_of rl l)) ls))"
  using resolve_parents_Some [of ls rl "[]"] by simp


lemma normalize_nested_eq:
  assumes "nested r = Some True" "parent r = Some p"
  shows "normalize_nested rl n r =
     (if p = [] \<or> (\<exists>l\<in>set p. map_of rl l = None) then Inl (Error_normalizing_nested n)
      else Inr (r\<lparr>parent := Some (first_seen (map (\<lambda>l. the (map_of rl l)) p))\<rparr>))"
proof (cases "\<exists>l\<in>set p. map_of rl l = None")
  case True
  then have "resolve_parents rl p [] = None" by (simp add: resolve_parents_None)
  with assms True show ?thesis by (simp add: normalize_nested_def)
next
  case False
  then have "resolve_parents rl p [] = Some (first_seen (map (\<lambda>l. the (map_of rl l)) p))"
    by (intro resolve_parents_first_seen) simp
  with assms False show ?thesis by (simp add: normalize_nested_def)
qed

lemma normalize_nested_other: "nested r \<noteq> Some True \<Longrightarrow> normalize_nested rl n r = Inr r"
  by (simp add: normalize_nested_def)

lemma normalize_resources_Inl:
  "normalize_resources rl rs = Inl e \<Longrightarrow> \<exists>(n, r)\<in>set rs. normalize_nested rl n r = Inl e"
proof (induction rs)
  case Nil
  then show ?case by simp
next
  case (Cons a rs)
  then show ?case by (cases a) (auto split: sum.splits)
qed

lemma normalize_resources_map:
  assumes "normalize_resources rl rs = Inr rs'"
    "\<forall>(n, r)\<in>set rs. nested r = Some True \<longrightarrow> parent r \<noteq> None"
  shows "(\<forall>(n, r)\<in>set rs. nested r = Some True \<longrightarrow>
            the (parent r) \<noteq> [] \<and> (\<forall>l\<in>set (the (parent r)). map_of rl l \<noteq> None)) \<and>
         rs' = map (\<lambda>(n, r). (n, if nested r = Some True
                   then r\<lparr>parent := Some (first_seen (map (\<lambda>l. the (map_of rl l)) (the (parent r))))\<rparr>
                   else r)) rs"
  using assms
proof (induction rs arbitrary: rs')
  case Nil
  then show ?case by simp
next
  case (Cons e rs)
  obtain n r where e: "e = (n, r)" by (cases e)
  from Cons.prems(1) e obtain r' rs1 where
    step: "normalize_nested rl n r = Inr r'" "normalize_resources rl rs = Inr rs1"
      "rs' = (n, r') # rs1"
    by (auto split: sum.splits)
  from Cons.prems(2) have rest: "\<forall>(n, r)\<in>set rs. nested r = Some True \<longrightarrow> parent r \<noteq> None"
    by simp
  note ih = Cons.IH [OF step(2) rest]
  show ?case
  proof (cases "nested r = Some True")
    case True
    with Cons.prems(2) e obtain p where p: "parent r = Some p" by auto
    from step(1) normalize_nested_eq [OF True p, of rl n] have
      "p \<noteq> [] \<and> (\<forall>l\<in>set p. map_of rl l \<noteq> None) \<and>
       r' = r\<lparr>parent := Some (first_seen (map (\<lambda>l. the (map_of rl l)) p))\<rparr>"
      by (auto split: if_splits)
    with ih step(3) e True p show ?thesis by simp
  next
    case False
    with step(1) have "r' = r" by (simp add: normalize_nested_other)
    with ih step(3) e False show ?thesis by simp
  qed
qed

section \<open>What the loop keeps\<close>



text \<open>A record keeps every field but \<open>parent\<close> to the end of the walk.\<close>

lemma iterate_record_kept:
  "iterate native es s = Inr s' \<Longrightarrow> map_of (resources s) k = Some r \<Longrightarrow>
     \<exists>ps. map_of (resources s') k = Some (r\<lparr>parent := ps\<rparr>)"
proof (induction es arbitrary: s r)
  case Nil
  then have "map_of (resources s') k = Some (r\<lparr>parent := parent r\<rparr>)" by simp
  then show ?case by blast
next
  case (Cons e es)
  obtain n d where e: "e = (n, d)" by (cases e)
  from Cons.prems e obtain s1 where
    s1: "loop_body native n d s = Inr s1" "iterate native es s1 = Inr s'"
    using iterate_Cons_Inr by blast
  from s1(1) have "\<exists>ps. map_of (resources s1) k = Some (r\<lparr>parent := ps\<rparr>)"
  proof (cases rule: loop_body_cases)
    case skipped
    with Cons.prems(2) have "map_of (resources s1) k = Some (r\<lparr>parent := parent r\<rparr>)" by simp
    then show ?thesis by blast
  next
    case deferred
    with Cons.prems(2) have "map_of (resources s1) k = Some (r\<lparr>parent := parent r\<rparr>)" by simp
    then show ?thesis by blast
  next
    case (root r')
    with Cons.prems(2) have "map_of (resources s1) k = Some (r\<lparr>parent := parent r\<rparr>)"
      by (auto simp: AList.update_conv')
    then show ?thesis by blast
  next
    case (merged i r' ps)
    show ?thesis
    proof (cases "k = i")
      case True
      with merged Cons.prems(2) have
        "map_of (resources s1) k = Some (r\<lparr>parent := Some (ps @ d_requiredBy d)\<rparr>)"
        by (simp add: AList.update_conv')
      then show ?thesis by blast
    next
      case False
      with merged Cons.prems(2) have "map_of (resources s1) k = Some (r\<lparr>parent := parent r\<rparr>)"
        by (simp add: AList.update_conv')
      then show ?thesis by blast
    qed
  next
    case (created i r')
    with Cons.prems(2) have "map_of (resources s1) k = Some (r\<lparr>parent := parent r\<rparr>)"
      by (auto simp: AList.update_conv')
    then show ?thesis by blast
  qed
  then obtain ps where "map_of (resources s1) k = Some (r\<lparr>parent := ps\<rparr>)" by blast
  from Cons.IH [OF s1(2) this] show ?case by simp
qed

text \<open>The record of a nested identifier is made from the first node that has it.\<close>

lemma iterate_first_encounter:
  "iterate native es s = Inr s' \<Longrightarrow> map_of (resources s) i = None \<Longrightarrow>
     encounters i es = d # ds \<Longrightarrow>
     \<exists>r. map_of (resources s') i = Some r \<and> url r = the (d_resolved d)"
proof (induction es arbitrary: s)
  case Nil
  then show ?case by (simp add: encounters_simps)
next
  case (Cons e es)
  obtain n0 d0 where e: "e = (n0, d0)" by (cases e)
  from Cons.prems e obtain s1 where
    s1: "loop_body native n0 d0 s = Inr s1" "iterate native es s1 = Inr s'"
    using iterate_Cons_Inr by blast
  from s1(1) show ?case
  proof (cases rule: loop_body_cases)
    case skipped
    with Cons.prems e Cons.IH [OF s1(2)] show ?thesis by (simp add: encounters_simps)
  next
    case deferred
    with Cons.prems e Cons.IH [OF s1(2)] show ?thesis by (simp add: encounters_simps)
  next
    case (root r)
    from root Cons.prems(3) e have enc: "encounters i es = d # ds"
      by (simp add: encounters_simps)
    show ?thesis
    proof (cases "n0 = i")
      case True
      with root have "map_of (resources s1) i = Some r" by (simp add: AList.update_conv')
      from iterate_no_parent [OF s1(2) this root(7)] enc show ?thesis by simp
    next
      case False
      with root Cons.prems(2) have "map_of (resources s1) i = None"
        by (simp add: AList.update_conv')
      from Cons.IH [OF s1(2) this enc] show ?thesis .
    qed
  next
    case (merged j r ps)
    with Cons.prems(2) have ne: "j \<noteq> i" by auto
    with merged Cons.prems(3) e have enc: "encounters i es = d # ds"
      by (simp add: encounters_simps)
    from ne merged Cons.prems(2) have "map_of (resources s1) i = None"
      by (simp add: AList.update_conv')
    from Cons.IH [OF s1(2) this enc] show ?thesis .
  next
    case (created j r)
    show ?thesis
    proof (cases "j = i")
      case True
      with created Cons.prems(3) e have "d = d0" by (simp add: encounters_simps)
      moreover from True created have "map_of (resources s1) i = Some r"
        by (simp add: AList.update_conv')
      from iterate_record_kept [OF s1(2) this] obtain ps where
        "map_of (resources s') i = Some (r\<lparr>parent := ps\<rparr>)" by blast
      ultimately show ?thesis using created by simp
    next
      case False
      with created Cons.prems(3) e have enc: "encounters i es = d # ds"
        by (simp add: encounters_simps)
      from False created Cons.prems(2) have "map_of (resources s1) i = None"
        by (simp add: AList.update_conv')
      from Cons.IH [OF s1(2) this enc] show ?thesis .
    qed
  qed
qed

section \<open>The two passes of normalizeDepParents\<close>

lemma normalize_nested_root_cases:
  assumes "normalize_nested_root n d s = Inr s'"
  obtains r ps where "map_of (resources s) n = Some r"
    "reverse_location s' = AList.update (d_location d) n (reverse_location s)"
    "resolve_parents (reverse_location s') (d_requiredBy d)
       (case parent r of None \<Rightarrow> [] | Some ps \<Rightarrow> ps) = Some ps"
    "resources s' = AList.update n (r\<lparr>parent := Some ps\<rparr>) (resources s)"
    "nested_root_deps s' = nested_root_deps s"
  using assms
  by (auto simp: normalize_nested_root_def Let_def split: option.splits)

lemma normalize_nested_root_keys:
  assumes "normalize_nested_root n d s = Inr s'"
  shows "map fst (resources s') = map fst (resources s)"
  using assms
proof (cases rule: normalize_nested_root_cases)
  case (1 r ps)
  from 1(1) have "n \<in> fst ` set (resources s)"
    by (metis map_of_eq_None_iff option.distinct(1))
  with 1(4) show ?thesis by (simp add: AList.update_keys)
qed

lemma normalize_nested_roots_keys:
  "normalize_nested_roots ds s = Inr s' \<Longrightarrow> map fst (resources s') = map fst (resources s)"
proof (induction ds arbitrary: s)
  case Nil
  then show ?case by simp
next
  case (Cons e ds)
  obtain n d where e: "e = (n, d)" by (cases e)
  from Cons.prems e obtain s1 where
    s1: "normalize_nested_root n d s = Inr s1" "normalize_nested_roots ds s1 = Inr s'"
    by (auto split: sum.splits)
  from Cons.IH [OF s1(2)] normalize_nested_root_keys [OF s1(1)] show ?case by simp
qed

text \<open>The first pass leaves the records of all other keys as they are.\<close>

lemma normalize_nested_roots_other:
  "normalize_nested_roots ds s = Inr s' \<Longrightarrow> k \<notin> fst ` set ds \<Longrightarrow>
     map_of (resources s') k = map_of (resources s) k"
proof (induction ds arbitrary: s)
  case Nil
  then show ?case by simp
next
  case (Cons e ds)
  obtain n d where e: "e = (n, d)" by (cases e)
  from Cons.prems e obtain s1 where
    s1: "normalize_nested_root n d s = Inr s1" "normalize_nested_roots ds s1 = Inr s'"
    by (auto split: sum.splits)
  from Cons.prems(2) e have ne: "k \<noteq> n" and rest: "k \<notin> fst ` set ds" by auto
  from s1(1) have "map_of (resources s1) k = map_of (resources s) k"
  proof (cases rule: normalize_nested_root_cases)
    case (1 r ps)
    with ne show ?thesis by (simp add: AList.update_conv')
  qed
  with Cons.IH [OF s1(2) rest] show ?case by simp
qed



text \<open>The second pass, by key.\<close>

lemma normalize_resources_lookup:
  "normalize_resources rl rs = Inr rs' \<Longrightarrow> map_of rs k = Some r \<Longrightarrow>
     \<exists>r'. normalize_nested rl k r = Inr r' \<and> map_of rs' k = Some r'"
proof (induction rs arbitrary: rs')
  case Nil
  then show ?case by simp
next
  case (Cons e rs)
  obtain n r0 where e: "e = (n, r0)" by (cases e)
  from Cons.prems(1) e obtain r1 rs1 where
    step: "normalize_nested rl n r0 = Inr r1" "normalize_resources rl rs = Inr rs1"
      "rs' = (n, r1) # rs1"
    by (auto split: sum.splits)
  show ?case
  proof (cases "k = n")
    case True
    with Cons.prems(2) e step show ?thesis by simp
  next
    case False
    with Cons.prems(2) e have "map_of rs k = Some r" by simp
    from Cons.IH [OF step(2) this] False step(3) show ?thesis by simp
  qed
qed

lemma normalize_resources_keys:
  "normalize_resources rl rs = Inr rs' \<Longrightarrow> map fst rs' = map fst rs"
proof (induction rs arbitrary: rs')
  case Nil
  then show ?case by simp
next
  case (Cons e rs)
  then show ?case by (cases e) (auto split: sum.splits)
qed

lemma normalizeDepParents_cases:
  assumes "normalizeDepParents s = Inr s'"
  obtains s1 where "normalize_nested_roots (nested_root_deps s) s = Inr s1"
    "normalize_resources (reverse_location s1) (resources s1) = Inr (resources s')"
    "reverse_location s' = reverse_location s1"
  using assms by (auto simp: normalizeDepParents_def split: sum.splits)

lemma distinct_keys_count:
  "distinct (map fst rs) \<Longrightarrow> k \<in> fst ` set rs \<Longrightarrow> length (filter (\<lambda>(k', r). k' = k) rs) = 1"
proof (induction rs)
  case Nil
  then show ?case by simp
next
  case (Cons e rs)
  obtain n r where e: "e = (n, r)" by (cases e)
  show ?case
  proof (cases "n = k")
    case True
    with Cons.prems e have "k \<notin> fst ` set rs" by auto
    then have "filter (\<lambda>(k', r). k' = k) rs = []" by (force simp: filter_empty_conv)
    with True e show ?thesis by simp
  next
    case False
    with Cons e show ?thesis by auto
  qed
qed






section \<open>The errors of the loop\<close>


lemma classified_Cons:
  "classified ((n, d) # es) =
     (if truthy (d_id d) \<and> truthy (d_resolved d) then [(n, d)] else []) @ classified es"
  by (simp add: classified_def)





section \<open>The location index after the walk\<close>

lemma loop_body_location:
  assumes "loop_body native n d s = Inr s'"
  shows "map_of (reverse_location s') l =
     (if truthy (d_id d) \<and> truthy (d_resolved d) \<and> l = d_location d
      then Some (resource_key n d) else map_of (reverse_location s) l)"
  using assms
proof (cases rule: loop_body_cases)
  case skipped
  then show ?thesis by simp
next
  case deferred
  then show ?thesis by simp
next
  case (root r)
  then show ?thesis by (simp add: AList.update_conv' resource_key_def)
next
  case (merged i r ps)
  then show ?thesis by (simp add: AList.update_conv' resource_key_def)
next
  case (created i r)
  then show ?thesis by (simp add: AList.update_conv' resource_key_def)
qed

lemma iterate_location_other:
  "iterate native es s = Inr s' \<Longrightarrow> l \<notin> (\<lambda>(n, d). d_location d) ` set (classified es) \<Longrightarrow>
     map_of (reverse_location s') l = map_of (reverse_location s) l"
proof (induction es arbitrary: s)
  case Nil
  then show ?case by simp
next
  case (Cons e es)
  obtain n d where e: "e = (n, d)" by (cases e)
  from Cons.prems e obtain s1 where
    s1: "loop_body native n d s = Inr s1" "iterate native es s1 = Inr s'"
    using iterate_Cons_Inr by blast
  from Cons.prems(2) e have rest: "l \<notin> (\<lambda>(n, d). d_location d) ` set (classified es)"
    and here: "\<not> (truthy (d_id d) \<and> truthy (d_resolved d) \<and> l = d_location d)"
    by (auto simp: classified_Cons split: if_splits)
  from Cons.IH [OF s1(2) rest] loop_body_location [OF s1(1), of l] here show ?case by simp
qed

text \<open>The location index after the walk, at a location where all entries have one key.\<close>

lemma iterate_location:
  "iterate native es s = Inr s' \<Longrightarrow> (n, d) \<in> set (classified es) \<Longrightarrow>
     \<forall>(n', d')\<in>set (classified es). d_location d' = d_location d \<longrightarrow> resource_key n' d' = k \<Longrightarrow>
     map_of (reverse_location s') (d_location d) = Some k"
proof (induction es arbitrary: s n d)
  case Nil
  then show ?case by (simp add: classified_def)
next
  case (Cons e es)
  obtain n0 d0 where e: "e = (n0, d0)" by (cases e)
  from Cons.prems(1) e obtain s1 where
    s1: "loop_body native n0 d0 s = Inr s1" "iterate native es s1 = Inr s'"
    using iterate_Cons_Inr by blast
  from Cons.prems(3) e have rest:
    "\<forall>(n', d')\<in>set (classified es). d_location d' = d_location d \<longrightarrow> resource_key n' d' = k"
    by (auto simp: classified_Cons split: if_splits)
  show ?case
  proof (cases "d_location d \<in> (\<lambda>(n, d). d_location d) ` set (classified es)")
    case True
    then obtain n' d' where nd: "(n', d') \<in> set (classified es)" "d_location d' = d_location d"
      by auto
    from rest nd(2) have
      "\<forall>(n'', d'')\<in>set (classified es). d_location d'' = d_location d' \<longrightarrow> resource_key n'' d'' = k"
      by simp
    from Cons.IH [OF s1(2) nd(1) this] nd(2) show ?thesis by simp
  next
    case False
    with Cons.prems(2) e have here: "n0 = n" "d0 = d" "truthy (d_id d)" "truthy (d_resolved d)"
      by (auto simp: classified_Cons rev_image_eqI split: if_splits)
    from Cons.prems(2,3) have "resource_key n d = k" by auto
    with loop_body_location [OF s1(1), of "d_location d"] here have
      "map_of (reverse_location s1) (d_location d) = Some k" by simp
    with iterate_location_other [OF s1(2) False] show ?thesis by simp
  qed
qed

lemma encounters_classified:
  "e \<in> set (encounters i es) \<Longrightarrow> \<exists>n. (n, e) \<in> set (classified es) \<and> resource_key n e = i"
  by (auto simp: encounters_def resource_key_def)

section \<open>The claims\<close>

text \<open>
  C8. For an absent URL \<open>getHash\<close> returns a promise resolved to null and writes nothing
  to the log. For a URL that does not start with \<^verbatim>\<open>https://\<close> it appends exactly one warning
  to the log and again returns the promise resolved to null. Neither result is a started
  request, and neither is an error.
\<close>

theorem getHash_without_fetch:
  "getHash None lg = (Resolved_null, lg) \<and>
   (take 8 u \<noteq> ''https://'' \<longrightarrow>
      getHash (Some u) lg = (Resolved_null, lg @ [Unsupported_url u]))"
  by (simp add: getHash_def)

theorem getHash_without_fetch_witness:
  "getHash None [] = (Resolved_null, []) \<and>
   take 8 ''git+ssh://example.com/pkg.git'' \<noteq> ''https://'' \<and>
   getHash (Some ''git+ssh://example.com/pkg.git'') [] =
     (Resolved_null, [Unsupported_url ''git+ssh://example.com/pkg.git''])"
  using getHash_without_fetch [of "[]" "''git+ssh://example.com/pkg.git''"] by simp

text \<open>
  C3. The second pass, over records whose pending list is present whenever they are
  nested (as every record the resolver stores is): it throws exactly when some nested
  record has an empty pending list or a pending location without an entry in the
  location index; otherwise it leaves every other record as it is and replaces the
  pending list of every nested record by the identifiers the index gives for its
  locations, without repetitions and in the order in which they are seen first.
\<close>

theorem second_pass_resolves_pending:
  assumes "\<forall>(n, r)\<in>set rs. nested r = Some True \<longrightarrow> parent r \<noteq> None"
  shows "case normalize_resources rl rs of
           Inl e \<Rightarrow>
             \<exists>(n, r)\<in>set rs. nested r = Some True \<and>
               (the (parent r) = [] \<or> (\<exists>l\<in>set (the (parent r)). map_of rl l = None))
         | Inr rs' \<Rightarrow>
             (\<forall>(n, r)\<in>set rs. nested r = Some True \<longrightarrow>
                the (parent r) \<noteq> [] \<and> (\<forall>l\<in>set (the (parent r)). map_of rl l \<noteq> None)) \<and>
             rs' = map (\<lambda>(n, r). (n, if nested r = Some True
                     then r\<lparr>parent :=
                       Some (first_seen (map (\<lambda>l. the (map_of rl l)) (the (parent r))))\<rparr>
                     else r)) rs"
proof (cases "normalize_resources rl rs")
  case (Inl e)
  from normalize_resources_Inl [OF Inl] obtain n r where
    nr: "(n, r) \<in> set rs" "normalize_nested rl n r = Inl e" by auto
  from nr(2) have nested: "nested r = Some True"
    using normalize_nested_other [of r rl n] by auto
  with assms nr(1) obtain p where p: "parent r = Some p" by auto
  from nr(2) normalize_nested_eq [OF nested p, of rl n] have
    "p = [] \<or> (\<exists>l\<in>set p. map_of rl l = None)"
    by (auto split: if_splits)
  with nested p have "nested r = Some True \<and>
      (the (parent r) = [] \<or> (\<exists>l\<in>set (the (parent r)). map_of rl l = None))"
    by simp
  with nr(1) have "\<exists>(n, r)\<in>set rs. nested r = Some True \<and>
      (the (parent r) = [] \<or> (\<exists>l\<in>set (the (parent r)). map_of rl l = None))"
    by (intro bexI [of _ "(n, r)"]) simp_all
  with Inl show ?thesis by simp
next
  case (Inr rs')
  with normalize_resources_map [OF Inr assms] show ?thesis by simp
qed

theorem second_pass_resolves_pending_witness:
  "normalize_resources [(''/A'', ''A''), (''/C'', ''C'')]
     [(''B@1'', \<lparr>url = ''https://r/B'', install = None, bin = None,
        nested = Some True, name = Some ''B@1'', parent = Some [''/A'', ''/C'', ''/A'']\<rparr>)] =
   Inr [(''B@1'', \<lparr>url = ''https://r/B'', install = None, bin = None,
        nested = Some True, name = Some ''B@1'', parent = Some [''A'', ''C'']\<rparr>)]"
  using second_pass_resolves_pending [of
    "[(''B@1'', \<lparr>url = ''https://r/B'', install = None, bin = None,
        nested = Some True, name = Some ''B@1'', parent = Some [''/A'', ''/C'', ''/A'']\<rparr>)]"
    "[(''/A'', ''A''), (''/C'', ''C'')]"]
  by (simp add: normalize_nested_def)

text \<open>
  C10. The merge case: a nested node whose identifier already has a record, in a step
  that does not throw. The record keeps every field but \<open>parent\<close>, to which the node's
  requirers are appended; no other record changes and no key is added; the location of
  the node is indexed under the identifier; no promise is added to
  \<^verbatim>\<open>resources_sha256s\<close> and \<open>getHash\<close> writes no warning, so no fetch is started.
\<close>

theorem merge_changes_pending_only:
  assumes "\<not> root_level d" "d_id d = Some i" "map_of (resources s) i = Some r"
    "resolve_node native n d s = Inr s'"
  shows "\<exists>ps. parent r = Some ps \<and>
           map_of (resources s') i = Some (r\<lparr>parent := Some (ps @ d_requiredBy d)\<rparr>) \<and>
           (\<forall>k. k \<noteq> i \<longrightarrow> map_of (resources s') k = map_of (resources s) k) \<and>
           map fst (resources s') = map fst (resources s) \<and>
           reverse_location s' = AList.update (d_location d) i (reverse_location s) \<and>
           resources_sha256s s' = resources_sha256s s \<and>
           log s' = log s"
proof -
  from assms(3) have "i \<in> fst ` set (resources s)"
    by (metis map_of_eq_None_iff option.distinct(1))
  then have keys: "map fst (AList.update i v (resources s)) = map fst (resources s)" for v
    by (simp add: AList.update_keys)
  from assms show ?thesis
    by (auto simp: resolve_node_def root_level_def Let_def AList.update_conv' keys
        split: option.splits)
qed

theorem merge_changes_pending_only_witness:
  "case resolveDependencies False [(''A'', pkg ''A@1.0.0'' ''/A'' [''/'']
           [(''B'', pkg ''B@1.0.0'' ''/A/node_modules/B'' [''/A''] [])])] initial of
     Inl e \<Rightarrow> False
   | Inr s \<Rightarrow>
       (case resolve_node False ''B'' (pkg ''B@1.0.0'' ''/C/node_modules/B'' [''/C''] []) s of
          Inl e \<Rightarrow> False
        | Inr s' \<Rightarrow>
            map_of (resources s') ''B@1.0.0'' =
              Some \<lparr>url = ''https://registry.npmjs.org/B@1.0.0'', install = None, bin = None,
                     nested = Some True, name = Some ''B@1.0.0'',
                     parent = Some [''/A'', ''/C'']\<rparr> \<and>
            resources_sha256s s' = resources_sha256s s \<and> log s' = log s)"
proof -
  define s where "s = \<lparr>resources =
        [(''A'', \<lparr>url = ''https://registry.npmjs.org/A@1.0.0'', install = None, bin = None,
             nested = Some False, name = Some ''A'', parent = None\<rparr>),
         (''B@1.0.0'', \<lparr>url = ''https://registry.npmjs.org/B@1.0.0'', install = None,
             bin = None, nested = Some True, name = Some ''B@1.0.0'',
             parent = Some [''/A'']\<rparr>)],
      reverse_location = [(''/A'', ''A''), (''/A/node_modules/B'', ''B@1.0.0'')],
      resources_sha256s = [(''A'', Https_get ''https://registry.npmjs.org/A@1.0.0''),
         (''B@1.0.0'', Https_get ''https://registry.npmjs.org/B@1.0.0'')],
      nested_root_deps = [], native_addons = [], log = []\<rparr>"
  have run: "resolveDependencies False [(''A'', pkg ''A@1.0.0'' ''/A'' [''/'']
           [(''B'', pkg ''B@1.0.0'' ''/A/node_modules/B'' [''/A''] [])])] initial = Inr s"
    unfolding s_def by code_simp
  obtain s' where s': "resolve_node False ''B'' (pkg ''B@1.0.0'' ''/C/node_modules/B'' [''/C''] []) s = Inr s'"
    unfolding s_def by (simp add: resolve_node_def pkg_def getHash_def truthy_def Let_def)
  have 1: "\<not> root_level (pkg ''B@1.0.0'' ''/C/node_modules/B'' [''/C''] [])"
    by (simp add: root_level_def pkg_def)
  have 2: "d_id (pkg ''B@1.0.0'' ''/C/node_modules/B'' [''/C''] []) = Some ''B@1.0.0''"
    by (simp add: pkg_def)
  have 3: "map_of (resources s) ''B@1.0.0'' =
      Some \<lparr>url = ''https://registry.npmjs.org/B@1.0.0'', install = None,
             bin = None, nested = Some True, name = Some ''B@1.0.0'',
             parent = Some [''/A'']\<rparr>"
    by (simp add: s_def)
  from merge_changes_pending_only [OF 1 2 3 s'] run s' show ?thesis
    by (simp add: pkg_def)
qed

text \<open>
  C7, on the tree \<open>two_addons\<close>: the object pushed to \<^verbatim>\<open>native_addons\<close> at the second
  encounter of \<open>B@1.0.0\<close> is never stored and never given a name; it carries the
  rewritten command only.
\<close>

theorem merged_addon_has_no_name:
  "case resolveDependencies True two_addons initial of
     Inl e \<Rightarrow> False
   | Inr s \<Rightarrow>
       map (addon_info (resources s)) (native_addons s) =
         [Some \<lparr>url = ''https://registry.npmjs.org/B@1.0.0'',
                 install = Some ''node-pre-gyp --build-from-source install'', bin = None,
                 nested = Some True, name = Some ''B@1.0.0'',
                 parent = Some [''/A'', ''/C'']\<rparr>,
          Some \<lparr>url = ''https://registry.npmjs.org/B@1.0.0'',
                 install = Some ''node-pre-gyp --build-from-source install'', bin = None,
                 nested = None, name = None, parent = None\<rparr>]"
  by code_simp




text \<open>
  C5. After a resolution without error the keys of \<^verbatim>\<open>resources\<close> are pairwise different;
  they are the names of the root-level nodes of the walk together with the identifiers
  of its nested nodes, and no key is both; every record has its key as its name, and
  is nested exactly when its key is not a root-level name. So a root-level \<open>B\<close> and a
  nested \<open>B@1.0.0\<close> are two records.
\<close>

theorem resource_keys_unique:
  assumes "resolveDependencies native deps initial = Inr s"
  shows "distinct (map fst (resources s)) \<and>
         set (map fst (resources s)) =
           set (root_names (walk deps)) \<union> {i. encounters i (walk deps) \<noteq> []} \<and>
         set (root_names (walk deps)) \<inter> {i. encounters i (walk deps) \<noteq> []} = {} \<and>
         (\<forall>(k, r)\<in>set (resources s).
            name r = Some k \<and> nested r = Some (k \<notin> set (root_names (walk deps))))"
proof -
  from assms have it: "iterate native (walk deps) initial = Inr s"
    by (simp add: resolveDependencies_iterate)
  have 1: "distinct (map fst (resources s))"
    using iterate_distinct [OF it] by (simp add: initial_def)
  have 2: "set (map fst (resources s)) =
      set (root_names (walk deps)) \<union> {i. encounters i (walk deps) \<noteq> []}"
    using iterate_keys [OF it] by (simp add: initial_def)
  have 3: "set (root_names (walk deps)) \<inter> {i. encounters i (walk deps) \<noteq> []} = {}"
    using iterate_namespaces [OF it] by auto
  have 4: "name r = Some k \<and> nested r = Some (k \<notin> set (root_names (walk deps)))"
    if "(k, r) \<in> set (resources s)" for k r
    using iterate_records [OF it that] iterate_namespaces [OF it, of k]
    by (auto simp: initial_def)
  from 1 2 3 4 show ?thesis by blast
qed

theorem resource_keys_unique_witness:
  "case resolveDependencies False root_and_nested initial of
     Inl e \<Rightarrow> False
   | Inr s \<Rightarrow>
       map fst (resources s) = [''A'', ''B@1.0.0'', ''B''] \<and>
       distinct (map fst (resources s)) \<and>
       root_names (walk root_and_nested) = [''A'', ''B''] \<and>
       map (\<lambda>(k, r). (name r, nested r)) (resources s) =
         [(Some ''A'', Some False), (Some ''B@1.0.0'', Some True), (Some ''B'', Some False)]"
proof -
  define s where "s = \<lparr>resources =
      [(''A'', \<lparr>url = ''https://registry.npmjs.org/A@1.0.0'', install = None, bin = None,
          nested = Some False, name = Some ''A'', parent = None\<rparr>),
       (''B@1.0.0'', \<lparr>url = ''https://registry.npmjs.org/B@1.0.0'', install = None,
          bin = None, nested = Some True, name = Some ''B@1.0.0'', parent = Some [''/A'']\<rparr>),
       (''B'', \<lparr>url = ''https://registry.npmjs.org/B@2.0.0'', install = None, bin = None,
          nested = Some False, name = Some ''B'', parent = None\<rparr>)],
    reverse_location =
      [(''/A'', ''A''), (''/A/node_modules/B'', ''B@1.0.0''), (''/B'', ''B'')],
    resources_sha256s =
      [(''A'', Https_get ''https://registry.npmjs.org/A@1.0.0''),
       (''B@1.0.0'', Https_get ''https://registry.npmjs.org/B@1.0.0''),
       (''B'', Https_get ''https://registry.npmjs.org/B@2.0.0'')],
    nested_root_deps = [], native_addons = [], log = []\<rparr>"
  have s: "resolveDependencies False root_and_nested initial = Inr s"
    unfolding s_def by code_simp
  have w: "root_names (walk root_and_nested) = [''A'', ''B'']"
    by code_simp
  from resource_keys_unique [OF s] s w show ?thesis
    by (simp add: s_def)
qed

text \<open>
  C1. Let a successful resolution meet the nested identifier \<open>i\<close> at the nodes \<open>d # ds\<close>, in
  this order. Then \<^verbatim>\<open>resources\<close> holds exactly one entry under \<open>i\<close>; its record is nested,
  has the URL of the first node \<open>d\<close>, and its pending list is the requirers of \<open>d\<close>
  followed by those of every later node; the location index maps the location of each
  of these nodes to \<open>i\<close> (provided the walk classifies no node with another key at one of
  these locations, which would overwrite the entry). If normalization succeeds too (and \<open>i\<close> is not
  also the name of an unresolved node), there is still exactly one entry under \<open>i\<close>, and
  its parents are the identifiers of those requirers, each once, in the order in which
  they are seen first.
\<close>

theorem nested_encounters_merge:
  assumes "resolveDependencies native deps initial = Inr s"
    "encounters i (walk deps) = d # ds"
  shows "length (filter (\<lambda>(k, r). k = i) (resources s)) = 1 \<and>
         (\<exists>r. map_of (resources s) i = Some r \<and> nested r = Some True \<and> name r = Some i \<and>
              url r = the (d_resolved d) \<and>
              parent r = Some (concat (map d_requiredBy (d # ds)))) \<and>
         ((\<forall>(n', d')\<in>set (classified (walk deps)).
             d_location d' \<in> d_location ` set (d # ds) \<longrightarrow> resource_key n' d' = i) \<longrightarrow>
          (\<forall>e\<in>set (d # ds). map_of (reverse_location s) (d_location e) = Some i)) \<and>
         (\<forall>s'. normalizeDepParents s = Inr s' \<longrightarrow> i \<notin> fst ` set (nested_root_deps s) \<longrightarrow>
            length (filter (\<lambda>(k, r). k = i) (resources s')) = 1 \<and>
            (\<exists>r'. map_of (resources s') i = Some r' \<and>
               parent r' =
                 Some (first_seen (map (\<lambda>l. the (map_of (reverse_location s') l))
                   (concat (map d_requiredBy (d # ds)))))))"
proof -
  from assms(1) have it: "iterate native (walk deps) initial = Inr s"
    by (simp add: resolveDependencies_iterate)
  have dist: "distinct (map fst (resources s))"
    using iterate_distinct [OF it] by (simp add: initial_def)
  from assms(2) iterate_keys [OF it] have key: "i \<in> fst ` set (resources s)" by auto
  then obtain r where r: "map_of (resources s) i = Some r"
    by (metis map_of_eq_None_iff not_Some_eq)
  then have mem: "(i, r) \<in> set (resources s)" by (rule map_of_SomeD)
  from iterate_records [OF it mem] iterate_namespaces [OF it, of i] assms(2)
  have shape: "name r = Some i" "nested r = Some True" "parent r \<noteq> None"
    by (auto simp: initial_def)
  from iterate_pending [OF it, of i] assms(2) have
    "pending (resources s) i = concat (map d_requiredBy (d # ds))"
    by (simp add: initial_def pending_def)
  with r shape(3) have par: "parent r = Some (concat (map d_requiredBy (d # ds)))"
    by (auto simp: pending_def)
  from iterate_first_encounter [OF it _ assms(2)] r have u: "url r = the (d_resolved d)"
    by (simp add: initial_def)
  have after: "length (filter (\<lambda>(k, r). k = i) (resources s')) = 1 \<and>
      (\<exists>r'. map_of (resources s') i = Some r' \<and>
         parent r' = Some (first_seen (map (\<lambda>l. the (map_of (reverse_location s') l))
           (concat (map d_requiredBy (d # ds))))))"
    if norm: "normalizeDepParents s = Inr s'" and other: "i \<notin> fst ` set (nested_root_deps s)"
    for s'
    using norm
  proof (cases rule: normalizeDepParents_cases)
    case (1 s1)
    from normalize_nested_roots_other [OF 1(1) other] r have
      r1: "map_of (resources s1) i = Some r" by simp
    from normalize_resources_lookup [OF 1(2) r1] obtain r' where
      r': "normalize_nested (reverse_location s1) i r = Inr r'"
        "map_of (resources s') i = Some r'" by blast
    from r'(1) normalize_nested_eq [OF shape(2) par, of "reverse_location s1" i] 1(3)
    have "parent r' = Some (first_seen (map (\<lambda>l. the (map_of (reverse_location s') l))
           (concat (map d_requiredBy (d # ds)))))"
      by (auto split: if_splits)
    moreover have "map fst (resources s') = map fst (resources s)"
      using normalize_resources_keys [OF 1(2)] normalize_nested_roots_keys [OF 1(1)] by simp
    with dist key have "length (filter (\<lambda>(k, r). k = i) (resources s')) = 1"
      by (intro distinct_keys_count) (simp, metis image_set)
    ultimately show ?thesis using r'(2) by blast
  qed
  have index: "map_of (reverse_location s) (d_location e) = Some i"
    if same: "\<forall>(n', d')\<in>set (classified (walk deps)).
        d_location d' \<in> d_location ` set (d # ds) \<longrightarrow> resource_key n' d' = i"
      and e: "e \<in> set (d # ds)" for e
  proof -
    from e assms(2) encounters_classified [of e i "walk deps"] obtain n where
      n: "(n, e) \<in> set (classified (walk deps))" by auto
    from same e have "\<forall>(n', d')\<in>set (classified (walk deps)).
        d_location d' = d_location e \<longrightarrow> resource_key n' d' = i"
      by auto
    from iterate_location [OF it n this] show ?thesis .
  qed
  from distinct_keys_count [OF dist key] r shape par u index after show ?thesis by blast
qed

theorem nested_encounters_merge_witness:
  "case resolveDependencies False two_requirers initial of
     Inl e \<Rightarrow> False
   | Inr s \<Rightarrow>
       (case normalizeDepParents s of
          Inl e \<Rightarrow> False
        | Inr s' \<Rightarrow>
            map d_location (encounters ''B@1.0.0'' (walk two_requirers)) =
              [''/A/node_modules/B'', ''/C/node_modules/B''] \<and>
            map_option parent (map_of (resources s) ''B@1.0.0'') = Some (Some [''/A'', ''/C'']) \<and>
            map (map_of (reverse_location s)) [''/A/node_modules/B'', ''/C/node_modules/B''] =
              [Some ''B@1.0.0'', Some ''B@1.0.0''] \<and>
            map_option parent (map_of (resources s') ''B@1.0.0'') = Some (Some [''A'', ''C'']) \<and>
            length (filter (\<lambda>(k, r). k = ''B@1.0.0'') (resources s')) = 1)"
proof -
  define s where "s = \<lparr>resources =
      [(''A'', \<lparr>url = ''https://registry.npmjs.org/A@1.0.0'', install = None, bin = None,
          nested = Some False, name = Some ''A'', parent = None\<rparr>),
       (''B@1.0.0'', \<lparr>url = ''https://registry.npmjs.org/B@1.0.0'', install = None,
          bin = None, nested = Some True, name = Some ''B@1.0.0'',
          parent = Some [''/A'', ''/C'']\<rparr>),
       (''C'', \<lparr>url = ''https://registry.npmjs.org/C@1.0.0'', install = None, bin = None,
          nested = Some False, name = Some ''C'', parent = None\<rparr>)],
    reverse_location =
      [(''/A'', ''A''), (''/A/node_modules/B'', ''B@1.0.0''), (''/C'', ''C''),
       (''/C/node_modules/B'', ''B@1.0.0'')],
    resources_sha256s =
      [(''A'', Https_get ''https://registry.npmjs.org/A@1.0.0''),
       (''B@1.0.0'', Https_get ''https://registry.npmjs.org/B@1.0.0''),
       (''C'', Https_get ''https://registry.npmjs.org/C@1.0.0'')],
    nested_root_deps = [], native_addons = [], log = []\<rparr>"
  define s' where "s' = s\<lparr>resources :=
      [(''A'', \<lparr>url = ''https://registry.npmjs.org/A@1.0.0'', install = None, bin = None,
          nested = Some False, name = Some ''A'', parent = None\<rparr>),
       (''B@1.0.0'', \<lparr>url = ''https://registry.npmjs.org/B@1.0.0'', install = None,
          bin = None, nested = Some True, name = Some ''B@1.0.0'',
          parent = Some [''A'', ''C'']\<rparr>),
       (''C'', \<lparr>url = ''https://registry.npmjs.org/C@1.0.0'', install = None, bin = None,
          nested = Some False, name = Some ''C'', parent = None\<rparr>)]\<rparr>"
  have run: "resolveDependencies False two_requirers initial = Inr s"
    unfolding s_def by code_simp
  have norm: "normalizeDepParents s = Inr s'"
    unfolding s'_def s_def by code_simp
  have enc: "encounters ''B@1.0.0'' (walk two_requirers) =
      [pkg ''B@1.0.0'' ''/A/node_modules/B'' [''/A''] [],
       pkg ''B@1.0.0'' ''/C/node_modules/B'' [''/C''] []]"
    by code_simp
  have other: "''B@1.0.0'' \<notin> fst ` set (nested_root_deps s)"
    by (simp add: s_def)
  from nested_encounters_merge [OF run enc] norm other have
    "length (filter (\<lambda>(k, r). k = ''B@1.0.0'') (resources s')) = 1 \<and>
     (\<exists>r'. map_of (resources s') ''B@1.0.0'' = Some r' \<and>
        parent r' = Some (first_seen (map (\<lambda>l. the (map_of (reverse_location s') l))
          (concat (map d_requiredBy
            [pkg ''B@1.0.0'' ''/A/node_modules/B'' [''/A''] [],
             pkg ''B@1.0.0'' ''/C/node_modules/B'' [''/C''] []])))))"
    by blast
  then show ?thesis
    by (simp add: run norm enc) (simp add: s_def s'_def pkg_def)
qed








end
